theory Spec2Isabelle
  imports Complex_Main "HOL-Library.Stream"
begin

section \<open>Numbers, random draws and the parameter snapshot\<close>

text \<open>
  A C \<open>double\<close>, as far as the moves look at it: a finite value, one of the two
  infinities, or NaN. Finite arithmetic is exact here (no rounding, no overflow); the
  special values follow IEEE 754, which is what decides the comparison
  \<open>p_accept < unif_rand()\<close> when a log-likelihood is not finite.
\<close>

datatype dbl = Fin real | PInf | MInf | NaN

fun dbl_plus :: "dbl \<Rightarrow> dbl \<Rightarrow> dbl" where
  "dbl_plus NaN _ = NaN"
| "dbl_plus _ NaN = NaN"
| "dbl_plus (Fin a) (Fin b) = Fin (a + b)"
| "dbl_plus PInf MInf = NaN"
| "dbl_plus MInf PInf = NaN"
| "dbl_plus PInf _ = PInf"
| "dbl_plus _ PInf = PInf"
| "dbl_plus MInf _ = MInf"
| "dbl_plus _ MInf = MInf"

fun dbl_uminus :: "dbl \<Rightarrow> dbl" where
  "dbl_uminus (Fin a) = Fin (- a)"
| "dbl_uminus PInf = MInf"
| "dbl_uminus MInf = PInf"
| "dbl_uminus NaN = NaN"

definition dbl_minus :: "dbl \<Rightarrow> dbl \<Rightarrow> dbl" where
  "dbl_minus a b = dbl_plus a (dbl_uminus b)"

fun dbl_exp :: "dbl \<Rightarrow> dbl" where
  "dbl_exp (Fin a) = Fin (exp a)"
| "dbl_exp PInf = PInf"
| "dbl_exp MInf = Fin 0"
| "dbl_exp NaN = NaN"

text \<open>The C comparisons \<open><\<close> and \<open><=\<close>: false as soon as one side is NaN.\<close>

fun dbl_less :: "dbl \<Rightarrow> dbl \<Rightarrow> bool" where
  "dbl_less NaN _ = False"
| "dbl_less _ NaN = False"
| "dbl_less (Fin a) (Fin b) = (a < b)"
| "dbl_less MInf MInf = False"
| "dbl_less MInf _ = True"
| "dbl_less PInf _ = False"
| "dbl_less (Fin a) PInf = True"
| "dbl_less (Fin a) MInf = False"


fun is_finite :: "dbl \<Rightarrow> bool" where
  "is_finite (Fin a) = True"
| "is_finite _ = False"

text \<open>
  The process-wide generator of R is threaded through the moves as the stream of the
  values its successive calls return: \<open>unif_rand()\<close> and \<open>norm_rand()\<close> each take the
  head of the stream and leave the tail. Nothing here restricts a uniform draw to the
  open interval from 0 to 1 in which R's lie; a statement that needs it says so.
\<close>

type_synonym rng = "real stream"

definition unif_rand :: "rng \<Rightarrow> real \<times> rng" where
  "unif_rand s = (shd s, stl s)"

definition norm_rand :: "rng \<Rightarrow> real \<times> rng" where
  "norm_rand s = (shd s, stl s)"

text \<open>
  The Gaussian draw \<open>R::rnorm(mu, sigma)\<close> belongs to R's mathematics library
  (\<open>Rmath.h\<close>), not to the repository, and is modelled as that library defines it: a
  NaN mean, a non-finite or a negative \<open>sigma\<close> give NaN; \<open>sigma = 0\<close> or an infinite
  mean give the mean itself, without a draw; otherwise the result is
  \<open>mu + sigma * norm_rand()\<close>.
\<close>

definition rnorm :: "dbl \<Rightarrow> dbl \<Rightarrow> rng \<Rightarrow> dbl \<times> rng" where
  "rnorm m sigma s =
     (if m = NaN \<or> \<not> is_finite sigma \<or> dbl_less sigma (Fin 0) then (NaN, s)
      else if sigma = Fin 0 \<or> \<not> is_finite m then (m, s)
      else (case (m, sigma) of
              (Fin a, Fin sd) \<Rightarrow> (let (z, s') = norm_rand s in (Fin (a + sd * z), s'))
            | _ \<Rightarrow> (NaN, s)))"

text \<open>
  The parameter snapshot \<open>param\<close>: the mutation rate \<open>mu\<close> (a vector of doubles of
  which the moves use entry 0), the infection dates \<open>t.inf\<close> and the ancestries
  \<open>alpha\<close>, kept on the scale \<open>1..N\<close>; \<open>None\<close> is \<open>NA_INTEGER\<close>, the case without
  ancestor. The dates are whole numbers without missing values: \<open>cpp_move_t_inf\<close>
  shifts them by one unit as a \<open>NumericVector\<close> and \<open>cpp_move_alpha\<close> compares them as
  an \<open>IntegerVector\<close>. \<open>data\<close> is read for the number of cases only, \<open>config\<close> for the
  standard deviation of the proposal.
\<close>

record param =
  mu :: dbl
  t_inf :: "int list"
  alpha :: "int option list"

record data =
  N :: nat

record config =
  sd_mu :: dbl

text \<open>
  The likelihood functions \<open>cpp_ll_genetic\<close>, \<open>cpp_ll_timing\<close> and \<open>cpp_ll_all\<close> are
  declared in \<open>likelihoods.h\<close> and passed to the moves as parameters. Their third
  argument is the optional case selector: \<open>None\<close> for \<open>R_NilValue\<close>, \<open>Some k\<close> for
  case \<open>k\<close> on the scale \<open>1..N\<close>.
\<close>

type_synonym loglik = "data \<Rightarrow> param \<Rightarrow> nat option \<Rightarrow> dbl"

text \<open>
  What one proposal computes before the acceptance test: the proposed value, the two
  log-likelihoods, the acceptance term, the uniform draw it is compared with, and the
  generator after both draws.
\<close>

record 'c proposal =
  candidate :: 'c
  old_loglike :: dbl
  new_loglike :: dbl
  p_accept :: dbl
  u_accept :: real
  rng_after :: rng

text \<open>The test \<open>p_accept < unif_rand()\<close> that rejects the new value.\<close>

definition rejected :: "'c proposal \<Rightarrow> bool" where
  "rejected pr = dbl_less (p_accept pr) (Fin (u_accept pr))"

datatype error = Out_Of_Bounds

section \<open>Movement of the mutation rate\<close>

text \<open>
  \<open>cpp_move_mu\<close> in two steps. The proposal: the log-likelihood of \<open>param\<close>, the rate
  of the clone \<open>new_param\<close> perturbed by \<open>R::rnorm(0, sd_mu)\<close>, the log-likelihood of
  \<open>new_param\<close>, the acceptance term. Then the test \<open>p_accept < unif_rand()\<close>, which
  puts the rate of \<open>param\<close> back on rejection.
\<close>

definition mu_propose :: "loglik \<Rightarrow> data \<Rightarrow> param \<Rightarrow> config \<Rightarrow> rng \<Rightarrow> dbl proposal" where
  "mu_propose cpp_ll_genetic d p c s =
     (let old_ll = cpp_ll_genetic d p None;
          (x, s1) = rnorm (Fin 0) (sd_mu c) s;
          new_mu = dbl_plus (mu p) x;
          new_ll = cpp_ll_genetic d (p\<lparr>mu := new_mu\<rparr>) None;
          (u, s2) = unif_rand s1
      in \<lparr>candidate = new_mu, old_loglike = old_ll, new_loglike = new_ll,
          p_accept = dbl_exp (dbl_minus new_ll old_ll), u_accept = u, rng_after = s2\<rparr>)"

definition cpp_move_mu :: "loglik \<Rightarrow> data \<Rightarrow> param \<Rightarrow> config \<Rightarrow> rng \<Rightarrow> param \<times> rng" where
  "cpp_move_mu cpp_ll_genetic d p c s =
     (let pr = mu_propose cpp_ll_genetic d p c s;
          new_param = p\<lparr>mu := candidate pr\<rparr>
      in if rejected pr then (new_param\<lparr>mu := mu p\<rparr>, rng_after pr)
         else (new_param, rng_after pr))"

section \<open>The scan over the cases\<close>

text \<open>
  \<open>for (i = 0; i < N; i++)\<close> runs its body on the indices \<open>[0..<N]\<close> in order. An
  access outside a vector, which the C++ leaves undefined, ends the scan with
  \<open>Out_Of_Bounds\<close>.
\<close>

fun scan :: "(nat \<Rightarrow> 's \<Rightarrow> error + 's) \<Rightarrow> nat list \<Rightarrow> 's \<Rightarrow> error + 's" where
  "scan body [] st = Inr st"
| "scan body (i # js) st =
     (case body i st of Inl e \<Rightarrow> Inl e | Inr st' \<Rightarrow> scan body js st')"

section \<open>Movement of the infection dates\<close>

text \<open>
  The state of the loop of \<open>cpp_move_t_inf\<close>: the vector \<open>new_t_inf\<close> (the copy made
  by \<open>clone\<close>), whether the entry \<open>"t.inf"\<close> of \<open>new_param\<close> currently is \<open>new_t_inf\<close>
  (it is the vector \<open>t_inf\<close> of \<open>param\<close> after \<open>new_param["t.inf"] = t_inf\<close>), and the
  generator. \<open>param\<close> and its vector \<open>t_inf\<close> are never written to.
\<close>

record t_inf_state =
  new_t_inf :: "int list"
  holds_new :: bool
  gen :: rng

text \<open>
  The body of the loop for case \<open>i\<close>. The old log-likelihood is that of \<open>param\<close>
  (\<open>cpp_ll_timing(data, param, R_NilValue)\<close>), the new one that of \<open>new_param\<close> holding
  the shifted \<open>new_t_inf\<close>. On rejection \<open>new_t_inf[i] = t_inf[i]\<close> restores the entry
  and \<open>new_param["t.inf"] = t_inf\<close> stores the vector of \<open>param\<close>.
\<close>

definition t_inf_propose ::
  "loglik \<Rightarrow> data \<Rightarrow> param \<Rightarrow> nat \<Rightarrow> t_inf_state \<Rightarrow> int list proposal" where
  "t_inf_propose cpp_ll_timing d p i st =
     (let old_ll = cpp_ll_timing d p None;
          (u1, s1) = unif_rand (gen st);
          nt = (new_t_inf st)[i := new_t_inf st ! i + (if u1 > 1 / 2 then 1 else - 1)];
          new_ll = cpp_ll_timing d (p\<lparr>t_inf := nt\<rparr>) None;
          (u, s2) = unif_rand s1
      in \<lparr>candidate = nt, old_loglike = old_ll, new_loglike = new_ll,
          p_accept = dbl_exp (dbl_minus new_ll old_ll), u_accept = u, rng_after = s2\<rparr>)"

definition t_inf_case ::
  "loglik \<Rightarrow> data \<Rightarrow> param \<Rightarrow> nat \<Rightarrow> t_inf_state \<Rightarrow> error + t_inf_state" where
  "t_inf_case cpp_ll_timing d p i st =
     (if i < length (new_t_inf st) then
        (let pr = t_inf_propose cpp_ll_timing d p i st in
         if rejected pr then
           (if i < length (t_inf p)
            then Inr \<lparr>new_t_inf = (candidate pr)[i := t_inf p ! i], holds_new = False,
                      gen = rng_after pr\<rparr>
            else Inl Out_Of_Bounds)
         else Inr \<lparr>new_t_inf = candidate pr, holds_new = True, gen = rng_after pr\<rparr>)
      else Inl Out_Of_Bounds)"

definition t_inf_init :: "param \<Rightarrow> rng \<Rightarrow> t_inf_state" where
  "t_inf_init p s = \<lparr>new_t_inf = t_inf p, holds_new = True, gen = s\<rparr>"

text \<open>The snapshot \<open>new_param\<close> as it stands in a state of the loop.\<close>

definition t_inf_new_param :: "param \<Rightarrow> t_inf_state \<Rightarrow> param" where
  "t_inf_new_param p st = p\<lparr>t_inf := (if holds_new st then new_t_inf st else t_inf p)\<rparr>"

definition cpp_move_t_inf :: "loglik \<Rightarrow> data \<Rightarrow> param \<Rightarrow> rng \<Rightarrow> error + param \<times> rng" where
  "cpp_move_t_inf cpp_ll_timing d p s =
     (case scan (t_inf_case cpp_ll_timing d p) [0..<N d] (t_inf_init p s) of
        Inl e \<Rightarrow> Inl e
      | Inr st \<Rightarrow> Inr (t_inf_new_param p st, gen st))"

section \<open>Movement of the ancestries\<close>

text \<open>
  \<open>cpp_pick_possible_ancestor\<close> is declared in \<open>internals.h\<close> and passed as a
  parameter: from the dates, the number it is given for the case and the generator it
  gives the proposed ancestor, on the scale \<open>1..N\<close>, and the generator after its
  draws. What it is given for the case is up to the caller: the loop passes its index
  \<open>i\<close>, which runs over \<open>0..N-1\<close>.
\<close>

type_synonym picker = "int list \<Rightarrow> nat \<Rightarrow> rng \<Rightarrow> int option \<times> rng"

record alpha_state =
  new_alpha :: "int option list"
  agen :: rng

text \<open>\<open>sum(t_inf < t_inf[i])\<close>: how many dates are earlier than \<open>t\<close>.\<close>

definition n_earlier :: "int list \<Rightarrow> int \<Rightarrow> nat" where
  "n_earlier ts t = length (filter (\<lambda>x. x < t) ts)"

text \<open>
  The body of the loop for a case \<open>i\<close> that passes the guard
  \<open>alpha[i] != NA_INTEGER && sum(t_inf < t_inf[i]) > 0\<close>. Both log-likelihoods are
  computed twice, for the whole population and for case \<open>i + 1\<close> alone; the second
  pair and its acceptance term \<open>p_accept2\<close> are never read. The old log-likelihood is
  that of \<open>param\<close>, and the sampler is given the dates of \<open>param\<close>.
\<close>

definition alpha_propose ::
  "loglik \<Rightarrow> picker \<Rightarrow> data \<Rightarrow> param \<Rightarrow> nat \<Rightarrow> alpha_state \<Rightarrow> int option list proposal" where
  "alpha_propose cpp_ll_all cpp_pick_possible_ancestor d p i st =
     (let old_ll = cpp_ll_all d p None;
          old_ll2 = cpp_ll_all d p (Some (i + 1));
          (a, s1) = cpp_pick_possible_ancestor (t_inf p) i (agen st);
          na = (new_alpha st)[i := a];
          new_ll = cpp_ll_all d (p\<lparr>alpha := na\<rparr>) None;
          new_ll2 = cpp_ll_all d (p\<lparr>alpha := na\<rparr>) (Some (i + 1));
          p_accept2 = dbl_exp (dbl_minus new_ll2 old_ll2);
          (u, s2) = unif_rand s1
      in \<lparr>candidate = na, old_loglike = old_ll, new_loglike = new_ll,
          p_accept = dbl_exp (dbl_minus new_ll old_ll), u_accept = u, rng_after = s2\<rparr>)"

definition alpha_case ::
  "loglik \<Rightarrow> picker \<Rightarrow> data \<Rightarrow> param \<Rightarrow> nat \<Rightarrow> alpha_state \<Rightarrow> error + alpha_state" where
  "alpha_case cpp_ll_all cpp_pick_possible_ancestor d p i st =
     (if i < length (alpha p) then
        (if alpha p ! i \<noteq> None then
           (if i < length (t_inf p) then
              (if 0 < n_earlier (t_inf p) (t_inf p ! i) then
                 (if i < length (new_alpha st) then
                    (let pr = alpha_propose cpp_ll_all cpp_pick_possible_ancestor d p i st in
                     if rejected pr
                     then Inr \<lparr>new_alpha = (candidate pr)[i := alpha p ! i],
                               agen = rng_after pr\<rparr>
                     else Inr \<lparr>new_alpha = candidate pr, agen = rng_after pr\<rparr>)
                  else Inl Out_Of_Bounds)
               else Inr st)
            else Inl Out_Of_Bounds)
         else Inr st)
      else Inl Out_Of_Bounds)"

definition alpha_init :: "param \<Rightarrow> rng \<Rightarrow> alpha_state" where
  "alpha_init p s = \<lparr>new_alpha = alpha p, agen = s\<rparr>"

definition cpp_move_alpha ::
  "loglik \<Rightarrow> picker \<Rightarrow> data \<Rightarrow> param \<Rightarrow> rng \<Rightarrow> error + param \<times> rng" where
  "cpp_move_alpha cpp_ll_all cpp_pick_possible_ancestor d p s =
     (case scan (alpha_case cpp_ll_all cpp_pick_possible_ancestor d p) [0..<N d]
             (alpha_init p s) of
        Inl e \<Rightarrow> Inl e
      | Inr st \<Rightarrow> Inr (p\<lparr>alpha := new_alpha st\<rparr>, agen st))"

section \<open>Notions used in the statements\<close>

text \<open>The vectors of a snapshot have one entry per case.\<close>

definition wf_param :: "data \<Rightarrow> param \<Rightarrow> bool" where
  "wf_param d p \<longleftrightarrow> length (t_inf p) = N d \<and> length (alpha p) = N d"

text \<open>The state in which the loop reaches case \<open>i\<close>: cases \<open>0..i-1\<close> are done.\<close>

definition t_inf_before :: "loglik \<Rightarrow> data \<Rightarrow> param \<Rightarrow> nat \<Rightarrow> rng \<Rightarrow> error + t_inf_state" where
  "t_inf_before cpp_ll_timing d p i s =
     scan (t_inf_case cpp_ll_timing d p) [0..<i] (t_inf_init p s)"

definition alpha_before ::
  "loglik \<Rightarrow> picker \<Rightarrow> data \<Rightarrow> param \<Rightarrow> nat \<Rightarrow> rng \<Rightarrow> error + alpha_state" where
  "alpha_before cpp_ll_all pick d p i s =
     scan (alpha_case cpp_ll_all pick d p) [0..<i] (alpha_init p s)"

text \<open>The condition under which \<open>cpp_move_alpha\<close> moves the ancestry of case \<open>i\<close>.\<close>

definition eligible :: "param \<Rightarrow> nat \<Rightarrow> bool" where
  "eligible p i \<longleftrightarrow> alpha p ! i \<noteq> None \<and> 0 < n_earlier (t_inf p) (t_inf p ! i)"

text \<open>Every acceptance test of a sweep rejects, each in the state the loop reaches it in.\<close>

definition t_inf_always_rejected :: "loglik \<Rightarrow> data \<Rightarrow> param \<Rightarrow> rng \<Rightarrow> bool" where
  "t_inf_always_rejected cpp_ll_timing d p s \<longleftrightarrow>
     (\<forall>i<N d. \<exists>st. t_inf_before cpp_ll_timing d p i s = Inr st
                 \<and> rejected (t_inf_propose cpp_ll_timing d p i st))"

definition alpha_always_rejected :: "loglik \<Rightarrow> picker \<Rightarrow> data \<Rightarrow> param \<Rightarrow> rng \<Rightarrow> bool" where
  "alpha_always_rejected cpp_ll_all pick d p s \<longleftrightarrow>
     (\<forall>i<N d. eligible p i \<longrightarrow>
        (\<exists>st. alpha_before cpp_ll_all pick d p i s = Inr st
           \<and> rejected (alpha_propose cpp_ll_all pick d p i st)))"

text \<open>
  An ancestor \<open>a\<close> of case \<open>i\<close> (index \<open>i\<close>, ancestor on the scale \<open>1..N\<close>) is either
  missing or a case infected strictly before case \<open>i\<close>; a snapshot is in temporal
  order when this holds of every case.
\<close>

definition ancestor_ok :: "int list \<Rightarrow> nat \<Rightarrow> int option \<Rightarrow> bool" where
  "ancestor_ok ts i a =
     (case a of None \<Rightarrow> True
      | Some k \<Rightarrow> 1 \<le> k \<and> nat k \<le> length ts \<and> ts ! (nat k - 1) < ts ! i)"

definition temporal_ok :: "param \<Rightarrow> bool" where
  "temporal_ok p \<longleftrightarrow> (\<forall>i<length (alpha p). ancestor_ok (t_inf p) i (alpha p ! i))"


section \<open>Example inputs\<close>

text \<open>
  Three cases infected at dates 0, 5 and 10, the first without ancestor; a generator
  whose every draw is one half (so every date is proposed one unit earlier); and a few
  likelihood functions and a sampler to run the moves on.
\<close>

definition ex_data :: data where
  "ex_data = \<lparr>N = 3\<rparr>"

definition ex_param :: param where
  "ex_param = \<lparr>mu = Fin (1 / 2), t_inf = [0, 5, 10], alpha = [None, Some 1, Some 2]\<rparr>"

definition ex_config :: config where
  "ex_config = \<lparr>sd_mu = Fin 1\<rparr>"

definition ex_rng :: rng where
  "ex_rng = sconst (1 / 2)"

definition ll_flat :: loglik where
  "ll_flat d q k = Fin 0"

text \<open>Zero on the whole population, the number of the case on a single case.\<close>

definition ll_case :: loglik where
  "ll_case d q k = (case k of None \<Rightarrow> Fin 0 | Some j \<Rightarrow> Fin (real j))"

text \<open>Every snapshot but \<open>p0\<close> is impossible.\<close>

definition ll_only :: "param \<Rightarrow> loglik" where
  "ll_only p0 d q k = (if q = p0 then Fin 0 else MInf)"



text \<open>Three times the delay between the infections of the first two cases.\<close>

definition ll_gap :: loglik where
  "ll_gap d q k =
     (case t_inf q of [a, b, c] \<Rightarrow> Fin (3 * real_of_int (b - a)) | _ \<Rightarrow> NaN)"

text \<open>The third case can only have been infected at date 10.\<close>

definition ll_last :: loglik where
  "ll_last d q k =
     (case t_inf q of [a, b, c] \<Rightarrow> (if c = 10 then Fin 0 else MInf) | _ \<Rightarrow> NaN)"

text \<open>The sampler that always proposes the first case.\<close>

definition pick_first :: picker where
  "pick_first ts i s = (Some 1, stl s)"

text \<open>
  Modelled from the spec: \<open>cpp_pick_possible_ancestor\<close> itself is not among the
  sources. The spec has \<open>pick_ancestor(t_inf, case_id)\<close> return a case chosen
  uniformly among those whose date strictly precedes \<open>t_inf[case_id]\<close>, with case
  identifiers on the scale \<open>1..N\<close>, as the header of \<open>moves.cpp\<close> has them too. The
  possible ancestors of case \<open>k\<close> are listed in ascending order and one uniform draw
  \<open>u\<close> selects the entry of rank \<open>floor (u * count)\<close>; outside \<open>1..N\<close>, or without a
  possible ancestor, the spec leaves the result undefined and \<open>None\<close> stands for it.
\<close>

definition possible_ancestors :: "int list \<Rightarrow> nat \<Rightarrow> int list" where
  "possible_ancestors ts k =
     map (\<lambda>j. int j + 1) (filter (\<lambda>j. ts ! j < ts ! (k - 1)) [0..<length ts])"

definition pick_spec :: picker where
  "pick_spec ts k s =
     (let (u, s') = unif_rand s;
          xs = possible_ancestors ts k;
          j = nat \<lfloor>u * real (length xs)\<rfloor>
      in (if 1 \<le> k \<and> k \<le> length ts \<and> j < length xs then Some (xs ! j) else None, s'))"

text \<open>
  Four cases infected at dates 5, 10, 7 and 0; the first and the last have no
  ancestor, the other two descend from the first.
\<close>

definition ex4_data :: data where
  "ex4_data = \<lparr>N = 4\<rparr>"

definition ex4_param :: param where
  "ex4_param = \<lparr>mu = Fin (1 / 2), t_inf = [5, 10, 7, 0], alpha = [None, Some 1, Some 1, None]\<rparr>"


section \<open>The scan: unfolding and invariants\<close>

lemma scan_append:
  "scan b (xs @ ys) st = (case scan b xs st of Inl e \<Rightarrow> Inl e | Inr st' \<Rightarrow> scan b ys st')"
  by (induction xs arbitrary: st) (auto split: sum.splits)

text \<open>
  The loop invariant rule: \<open>I k\<close> holds of the state in which the loop reaches case
  \<open>k\<close>, and the step may use that this state is the one the scan of the earlier cases
  ends in.
\<close>

lemma scan_invariant:
  assumes init: "I 0 st0"
    and step: "\<And>i st. i < n \<Longrightarrow> scan b [0..<i] st0 = Inr st \<Longrightarrow> I i st
                 \<Longrightarrow> \<exists>st'. b i st = Inr st' \<and> I (Suc i) st'"
  shows "\<exists>st'. scan b [0..<n] st0 = Inr st' \<and> I n st'"
  using step
proof (induction n)
  case 0
  show ?case using init by simp
next
  case (Suc n)
  have "\<exists>st'. scan b [0..<n] st0 = Inr st' \<and> I n st'"
    by (rule Suc.IH) (use Suc.prems in auto)
  then obtain st where st: "scan b [0..<n] st0 = Inr st" "I n st" by blast
  from Suc.prems [of n st] st obtain st' where "b n st = Inr st'" "I (Suc n) st'"
    by auto
  with st show ?case by (simp add: scan_append)
qed

lemma upt_1: "[0..<1] = [0]"
  by (simp add: upt_rec)

lemma upt_2: "[0..<2] = [0, 1]"
  by (simp add: upt_rec)

lemma upt_3: "[0..<3] = [0, 1, 2]"
  by (simp add: upt_rec)

lemma upt_4: "[0..<4] = [0, 1, 2, 3]"
  by (simp add: upt_rec)

lemma all_less_3: "(\<forall>i<3::nat. P i) \<longleftrightarrow> P 0 \<and> P 1 \<and> P 2"
  by (auto simp add: numeral_3_eq_3 numeral_2_eq_2 less_Suc_eq)

lemma all_less_Suc_3: "(\<forall>i<Suc (Suc (Suc 0)). P i) \<longleftrightarrow> P 0 \<and> P 1 \<and> P 2"
  using all_less_3 [of P] by (simp add: numeral_3_eq_3)

section \<open>Arithmetic of the acceptance term\<close>

lemma dbl_plus_zero: "dbl_plus x (Fin 0) = x"
  by (cases x) simp_all



lemma exp_3_not_small: "\<not> exp (3::real) * 2 < 1"
proof -
  have "1 + 3 \<le> exp (3::real)" by (rule exp_ge_add_one_self)
  then show ?thesis by simp
qed

lemma exp_minus_3_small: "exp (- 3 :: real) * 2 < 1"
proof -
  have "1 + 3 \<le> exp (3::real)" by (rule exp_ge_add_one_self)
  then have "inverse (exp (3::real)) \<le> inverse 4"
    by (intro le_imp_inverse_le) simp_all
  then show ?thesis by (simp add: exp_minus)
qed

lemma rnorm_zero_sd: "rnorm (Fin 0) (Fin 0) s = (Fin 0, s)"
  by (simp add: rnorm_def)


section \<open>The mutation rate\<close>


lemma mu_move_rejected:
  "rejected (mu_propose ll d p c s) \<Longrightarrow> fst (cpp_move_mu ll d p c s) = p"
  by (simp add: cpp_move_mu_def Let_def)


lemma mu_move_frame:
  "t_inf (fst (cpp_move_mu ll d p c s)) = t_inf p \<and> alpha (fst (cpp_move_mu ll d p c s)) = alpha p"
  by (simp add: cpp_move_mu_def Let_def)

section \<open>The infection dates\<close>

lemma t_inf_candidate:
  "candidate (t_inf_propose ll d p i st) =
     (new_t_inf st)[i := new_t_inf st ! i + (if fst (unif_rand (gen st)) > 1 / 2 then 1 else - 1)]"
  by (simp add: t_inf_propose_def Let_def split: prod.splits)


lemma t_inf_case_rejected:
  assumes "i < length (new_t_inf st)" "length (new_t_inf st) = length (t_inf p)"
    and "rejected (t_inf_propose ll d p i st)"
  shows "t_inf_case ll d p i st =
           Inr \<lparr>new_t_inf = (new_t_inf st)[i := t_inf p ! i], holds_new = False,
                gen = rng_after (t_inf_propose ll d p i st)\<rparr>"
  using assms by (simp add: t_inf_case_def t_inf_candidate Let_def)

lemma t_inf_case_accepted:
  assumes "i < length (new_t_inf st)"
    and "\<not> rejected (t_inf_propose ll d p i st)"
  shows "t_inf_case ll d p i st =
           Inr \<lparr>new_t_inf = candidate (t_inf_propose ll d p i st), holds_new = True,
                gen = rng_after (t_inf_propose ll d p i st)\<rparr>"
  using assms by (simp add: t_inf_case_def Let_def)

text \<open>One case of the loop succeeds and writes to its own entry only.\<close>

lemma t_inf_case_frame:
  assumes "i < length (new_t_inf st)" "length (new_t_inf st) = length (t_inf p)"
  shows "\<exists>st'. t_inf_case ll d p i st = Inr st'
            \<and> length (new_t_inf st') = length (t_inf p)
            \<and> (\<forall>j. j \<noteq> i \<longrightarrow> new_t_inf st' ! j = new_t_inf st ! j)"
proof (cases "rejected (t_inf_propose ll d p i st)")
  case True
  then show ?thesis using assms by (simp add: t_inf_case_rejected)
next
  case False
  then show ?thesis using assms by (simp add: t_inf_case_accepted t_inf_candidate)
qed

lemma t_inf_scan_ok:
  assumes "n \<le> length (t_inf p)"
  shows "\<exists>st. scan (t_inf_case ll d p) [0..<n] (t_inf_init p s) = Inr st
           \<and> length (new_t_inf st) = length (t_inf p)"
proof (rule scan_invariant)
  show "length (new_t_inf (t_inf_init p s)) = length (t_inf p)"
    by (simp add: t_inf_init_def)
next
  fix i and st :: t_inf_state
  assume "i < n" "length (new_t_inf st) = length (t_inf p)"
  then show "\<exists>st'. t_inf_case ll d p i st = Inr st' \<and> length (new_t_inf st') = length (t_inf p)"
    using assms t_inf_case_frame [of i st p ll d] by auto
qed

lemma t_inf_move_frame:
  assumes "wf_param d p"
  shows "\<exists>p' s'. cpp_move_t_inf ll d p s = Inr (p', s') \<and> mu p' = mu p \<and> alpha p' = alpha p"
proof -
  from assms have "N d \<le> length (t_inf p)" by (simp add: wf_param_def)
  from t_inf_scan_ok [OF this, of ll d s] obtain st where
    "scan (t_inf_case ll d p) [0..<N d] (t_inf_init p s) = Inr st" by blast
  then show ?thesis by (simp add: cpp_move_t_inf_def t_inf_new_param_def)
qed

lemma t_inf_sweep_rejected:
  assumes wf: "wf_param d p" and rej: "t_inf_always_rejected ll d p s"
  shows "\<exists>s'. cpp_move_t_inf ll d p s = Inr (p, s')"
proof -
  let ?I = "\<lambda>(k::nat) st. new_t_inf st = t_inf p"
  have len: "length (t_inf p) = N d" using wf by (simp add: wf_param_def)
  have "\<exists>st. scan (t_inf_case ll d p) [0..<N d] (t_inf_init p s) = Inr st \<and> ?I (N d) st"
  proof (rule scan_invariant)
    show "?I 0 (t_inf_init p s)" by (simp add: t_inf_init_def)
  next
    fix k and st :: t_inf_state
    assume k: "k < N d" and reach: "scan (t_inf_case ll d p) [0..<k] (t_inf_init p s) = Inr st"
      and inv: "?I k st"
    from rej k reach have "rejected (t_inf_propose ll d p k st)"
      by (auto simp add: t_inf_always_rejected_def t_inf_before_def)
    then show "\<exists>st'. t_inf_case ll d p k st = Inr st' \<and> ?I (Suc k) st'"
      using k len inv by (simp add: t_inf_case_rejected)
  qed
  then show ?thesis by (auto simp add: cpp_move_t_inf_def t_inf_new_param_def)
qed



section \<open>The ancestries\<close>

lemma n_earlier_zero: "n_earlier ts t = 0 \<longleftrightarrow> (\<forall>j<length ts. \<not> ts ! j < t)"
  by (simp add: n_earlier_def filter_empty_conv all_set_conv_all_nth)

lemma alpha_candidate:
  "candidate (alpha_propose ll pick d p i st) =
     (new_alpha st)[i := fst (pick (t_inf p) i (agen st))]"
  by (simp add: alpha_propose_def Let_def split: prod.splits)


lemma alpha_case_skip:
  assumes "i < length (alpha p)" "i < length (t_inf p)" "\<not> eligible p i"
  shows "alpha_case ll pick d p i st = Inr st"
  using assms by (auto simp add: alpha_case_def eligible_def)

lemma alpha_case_rejected:
  assumes "i < length (alpha p)" "i < length (t_inf p)" "i < length (new_alpha st)"
    and "eligible p i" "rejected (alpha_propose ll pick d p i st)"
  shows "alpha_case ll pick d p i st =
           Inr \<lparr>new_alpha = (new_alpha st)[i := alpha p ! i],
                agen = rng_after (alpha_propose ll pick d p i st)\<rparr>"
  using assms by (simp add: alpha_case_def eligible_def alpha_candidate Let_def)

lemma alpha_case_accepted:
  assumes "i < length (alpha p)" "i < length (t_inf p)" "i < length (new_alpha st)"
    and "eligible p i" "\<not> rejected (alpha_propose ll pick d p i st)"
  shows "alpha_case ll pick d p i st =
           Inr \<lparr>new_alpha = (new_alpha st)[i := fst (pick (t_inf p) i (agen st))],
                agen = rng_after (alpha_propose ll pick d p i st)\<rparr>"
  using assms by (simp add: alpha_case_def eligible_def alpha_candidate Let_def)

text \<open>
  One case of the loop succeeds, writes to its own entry only, and leaves there the
  value it found, the ancestor of the input, or what the sampler proposed.
\<close>

lemma alpha_case_frame:
  assumes "i < length (alpha p)" "i < length (t_inf p)"
    and "length (new_alpha st) = length (alpha p)"
  shows "\<exists>st'. alpha_case ll pick d p i st = Inr st'
            \<and> length (new_alpha st') = length (alpha p)
            \<and> (\<forall>j. j \<noteq> i \<longrightarrow> new_alpha st' ! j = new_alpha st ! j)
            \<and> (new_alpha st' ! i = new_alpha st ! i \<or> new_alpha st' ! i = alpha p ! i
                 \<or> eligible p i \<and> new_alpha st' ! i = fst (pick (t_inf p) i (agen st)))"
proof (cases "eligible p i")
  case False
  then show ?thesis using assms by (simp add: alpha_case_skip)
next
  case True
  show ?thesis
  proof (cases "rejected (alpha_propose ll pick d p i st)")
    case True
    with \<open>eligible p i\<close> show ?thesis using assms by (simp add: alpha_case_rejected)
  next
    case False
    with \<open>eligible p i\<close> show ?thesis using assms by (simp add: alpha_case_accepted)
  qed
qed

lemma alpha_scan_ok:
  assumes "n \<le> length (alpha p)" "length (t_inf p) = length (alpha p)"
  shows "\<exists>st. scan (alpha_case ll pick d p) [0..<n] (alpha_init p s) = Inr st
           \<and> length (new_alpha st) = length (alpha p)"
proof (rule scan_invariant)
  show "length (new_alpha (alpha_init p s)) = length (alpha p)"
    by (simp add: alpha_init_def)
next
  fix i and st :: alpha_state
  assume "i < n" "length (new_alpha st) = length (alpha p)"
  then show "\<exists>st'. alpha_case ll pick d p i st = Inr st'
                \<and> length (new_alpha st') = length (alpha p)"
    using assms alpha_case_frame [of i p st ll pick d] by auto
qed

lemma alpha_move_frame:
  assumes "wf_param d p"
  shows "\<exists>p' s'. cpp_move_alpha ll pick d p s = Inr (p', s') \<and> mu p' = mu p \<and> t_inf p' = t_inf p"
proof -
  from assms have "N d \<le> length (alpha p)" "length (t_inf p) = length (alpha p)"
    by (simp_all add: wf_param_def)
  from alpha_scan_ok [OF this, of ll pick d s] obtain st where
    "scan (alpha_case ll pick d p) [0..<N d] (alpha_init p s) = Inr st" by blast
  then show ?thesis by (simp add: cpp_move_alpha_def)
qed

text \<open>
  The entry of a case that is not eligible, or whose proposal is rejected, is the one
  of the input.
\<close>

lemma alpha_entry_kept:
  assumes wf: "wf_param d p" and i: "i < N d"
    and keep: "\<And>st. eligible p i \<Longrightarrow> alpha_before ll pick d p i s = Inr st
                 \<Longrightarrow> rejected (alpha_propose ll pick d p i st)"
  shows "\<exists>p' s'. cpp_move_alpha ll pick d p s = Inr (p', s') \<and> alpha p' ! i = alpha p ! i"
proof -
  let ?I = "\<lambda>(k::nat) st. length (new_alpha st) = length (alpha p)
                 \<and> new_alpha st ! i = alpha p ! i"
  have len: "length (alpha p) = N d" "length (t_inf p) = N d"
    using wf by (simp_all add: wf_param_def)
  have "\<exists>st. scan (alpha_case ll pick d p) [0..<N d] (alpha_init p s) = Inr st \<and> ?I (N d) st"
  proof (rule scan_invariant)
    show "?I 0 (alpha_init p s)" by (simp add: alpha_init_def)
  next
    fix k and sk :: alpha_state
    assume k: "k < N d" and rk: "scan (alpha_case ll pick d p) [0..<k] (alpha_init p s) = Inr sk"
      and inv: "?I k sk"
    show "\<exists>st'. alpha_case ll pick d p k sk = Inr st' \<and> ?I (Suc k) st'"
    proof (cases "k = i")
      case True
      show ?thesis
      proof (cases "eligible p i")
        case False
        then show ?thesis using k len inv True by (simp add: alpha_case_skip)
      next
        case el: True
        with keep [of sk] rk True have "rejected (alpha_propose ll pick d p i sk)"
          by (simp add: alpha_before_def)
        with el show ?thesis using k len inv True by (simp add: alpha_case_rejected)
      qed
    next
      case False
      from alpha_case_frame [of k p sk ll pick d] k len inv
      obtain st' where "alpha_case ll pick d p k sk = Inr st'"
        "length (new_alpha st') = length (alpha p)"
        "\<forall>j. j \<noteq> k \<longrightarrow> new_alpha st' ! j = new_alpha sk ! j"
        by auto
      with False inv show ?thesis by auto
    qed
  qed
  then show ?thesis using i by (auto simp add: cpp_move_alpha_def)
qed

lemma alpha_sweep_rejected:
  assumes wf: "wf_param d p" and rej: "alpha_always_rejected ll pick d p s"
  shows "\<exists>s'. cpp_move_alpha ll pick d p s = Inr (p, s')"
proof -
  let ?I = "\<lambda>(k::nat) st. new_alpha st = alpha p"
  have len: "length (alpha p) = N d" "length (t_inf p) = N d"
    using wf by (simp_all add: wf_param_def)
  have "\<exists>st. scan (alpha_case ll pick d p) [0..<N d] (alpha_init p s) = Inr st \<and> ?I (N d) st"
  proof (rule scan_invariant)
    show "?I 0 (alpha_init p s)" by (simp add: alpha_init_def)
  next
    fix k and st :: alpha_state
    assume k: "k < N d" and reach: "scan (alpha_case ll pick d p) [0..<k] (alpha_init p s) = Inr st"
      and inv: "?I k st"
    show "\<exists>st'. alpha_case ll pick d p k st = Inr st' \<and> ?I (Suc k) st'"
    proof (cases "eligible p k")
      case False
      then show ?thesis using k len inv by (simp add: alpha_case_skip)
    next
      case True
      with rej k reach have "rejected (alpha_propose ll pick d p k st)"
        by (auto simp add: alpha_always_rejected_def alpha_before_def)
      with True show ?thesis using k len inv by (simp add: alpha_case_rejected)
    qed
  qed
  then show ?thesis by (auto simp add: cpp_move_alpha_def)
qed

lemma alpha_propose_whole:
  assumes "\<And>q. ll1 d q None = ll2 d q None"
  shows "alpha_propose ll1 pick d p i st = alpha_propose ll2 pick d p i st"
  by (simp add: alpha_propose_def assms Let_def split: prod.splits)


text \<open>
  The sampler \<open>pick_spec\<close> keeps the contract of the spec: an answer for case \<open>k\<close> is a
  case of \<open>1..N\<close> infected strictly before case \<open>k\<close>, whose date is entry \<open>k - 1\<close>.
\<close>

lemma pick_spec_contract:
  assumes "fst (pick_spec ts k s) = Some a"
  shows "1 \<le> k \<and> k \<le> length ts \<and> ancestor_ok ts (k - 1) (Some a)"
proof -
  let ?xs = "possible_ancestors ts k"
  let ?j = "nat \<lfloor>shd s * real (length ?xs)\<rfloor>"
  from assms have k: "1 \<le> k" "k \<le> length ts" and j: "?j < length ?xs" and a: "a = ?xs ! ?j"
    by (auto simp add: pick_spec_def unif_rand_def Let_def split: if_splits)
  from j a have "a \<in> set ?xs" by simp
  then obtain i where i: "i < length ts" "ts ! i < ts ! (k - 1)" "a = int i + 1"
    by (auto simp add: possible_ancestors_def)
  have "nat (int i + 1) = Suc i" by linarith
  with k i show ?thesis by (simp add: ancestor_ok_def)
qed

lemma ex4_input_in_order: "wf_param ex4_data ex4_param \<and> temporal_ok ex4_param"
  by (simp add: wf_param_def temporal_ok_def ancestor_ok_def ex4_data_def ex4_param_def
      nth_Cons split: nat.splits)

lemma ex4_result_out_of_order:
  "\<not> temporal_ok (ex4_param\<lparr>alpha := [None, Some 4, Some 3, None]\<rparr>)"
proof
  assume "temporal_ok (ex4_param\<lparr>alpha := [None, Some 4, Some 3, None]\<rparr>)"
  then have "\<forall>i<4. ancestor_ok (t_inf ex4_param) i ([None, Some 4, Some 3, None] ! i)"
    by (simp add: temporal_ok_def)
  then have "ancestor_ok (t_inf ex4_param) 2 ([None, Some 4, Some 3, None] ! 2)"
    by (rule allE [where x = 2]) simp
  then have "ancestor_ok (t_inf ex4_param) 2 (Some 3)"
    by simp
  then show False by (simp add: ancestor_ok_def ex4_param_def)
qed

section \<open>The moves on the example inputs\<close>

lemmas ex_defs =
  ex_data_def ex_param_def ex_config_def ex_rng_def upt_1 upt_2 upt_3 unif_rand_def norm_rand_def
  rejected_def dbl_minus_def Let_def

lemmas t_inf_defs =
  cpp_move_t_inf_def t_inf_before_def t_inf_case_def t_inf_propose_def t_inf_init_def
  t_inf_new_param_def

lemmas alpha_defs =
  cpp_move_alpha_def alpha_before_def alpha_case_def alpha_propose_def alpha_init_def
  n_earlier_def

lemma ex_wf: "wf_param ex_data ex_param"
  by (simp add: wf_param_def ex_data_def ex_param_def)


section \<open>The claims\<close>

text \<open>
  Claim C1 (the baseline of the infection-date move). For every case of the scan the
  old log-likelihood entering the acceptance term should be the timing log-likelihood
  of the snapshot as it then stands, accepted updates of earlier cases included. The
  loop computes it from \<open>param\<close>, which it never updates. On the example, with
  \<open>ll_gap\<close>, the case of index 0 is accepted and moves to date \<open>-1\<close>; the snapshot
  then scores 18, yet the case of index 1 is tested against 15, the score of the input,
  and is accepted where the baseline 18 would have rejected it.
\<close>

theorem t_inf_baseline_stale:
  "t_inf_before ll_gap ex_data ex_param 1 ex_rng =
     Inr \<lparr>new_t_inf = [- 1, 5, 10], holds_new = True, gen = ex_rng\<rparr>
   \<and> ll_gap ex_data
       (t_inf_new_param ex_param \<lparr>new_t_inf = [- 1, 5, 10], holds_new = True, gen = ex_rng\<rparr>)
       None = Fin 18
   \<and> old_loglike (t_inf_propose ll_gap ex_data ex_param 1
        \<lparr>new_t_inf = [- 1, 5, 10], holds_new = True, gen = ex_rng\<rparr>) = Fin 15
   \<and> new_loglike (t_inf_propose ll_gap ex_data ex_param 1
        \<lparr>new_t_inf = [- 1, 5, 10], holds_new = True, gen = ex_rng\<rparr>) = Fin 15
   \<and> u_accept (t_inf_propose ll_gap ex_data ex_param 1
        \<lparr>new_t_inf = [- 1, 5, 10], holds_new = True, gen = ex_rng\<rparr>) = 1 / 2
   \<and> \<not> rejected (t_inf_propose ll_gap ex_data ex_param 1
        \<lparr>new_t_inf = [- 1, 5, 10], holds_new = True, gen = ex_rng\<rparr>)
   \<and> dbl_less (dbl_exp (dbl_minus (Fin 15) (Fin 18))) (Fin (1 / 2))
   \<and> cpp_move_t_inf ll_gap ex_data ex_param ex_rng =
       Inr (ex_param\<lparr>t_inf := [- 1, 4, 9]\<rparr>, ex_rng)"
  by (simp add: t_inf_defs ex_defs ll_gap_def exp_3_not_small exp_minus_3_small)

text \<open>
  Claim C2 (a rejection restores its own case only). A rejected case should leave the
  values accepted for the earlier cases in the returned snapshot. On rejection the loop
  stores the vector \<open>t_inf\<close> of the input in \<open>new_param\<close>, and when the rejected case is
  the last one this is what the move returns. On the example, with \<open>ll_last\<close>, the
  cases of index 0 and 1 are accepted (dates \<open>-1\<close> and 4), the case of index 2 is
  rejected, and the result carries the dates of the input.
\<close>

theorem t_inf_last_rejection_reverts:
  "t_inf_before ll_last ex_data ex_param 2 ex_rng =
     Inr \<lparr>new_t_inf = [- 1, 4, 10], holds_new = True, gen = ex_rng\<rparr>
   \<and> rejected (t_inf_propose ll_last ex_data ex_param 2
        \<lparr>new_t_inf = [- 1, 4, 10], holds_new = True, gen = ex_rng\<rparr>)
   \<and> t_inf_before ll_last ex_data ex_param 3 ex_rng =
       Inr \<lparr>new_t_inf = [- 1, 4, 10], holds_new = False, gen = ex_rng\<rparr>
   \<and> cpp_move_t_inf ll_last ex_data ex_param ex_rng = Inr (ex_param, ex_rng)
   \<and> t_inf ex_param = [0, 5, 10]"
  by (simp add: t_inf_defs ex_defs ll_last_def)

text \<open>
  Claim C3 (temporal order after an ancestry sweep). With a sampler that returns only
  cases infected strictly before the case it is asked about, and an input in temporal
  order, every case with an ancestor in the result should have been infected strictly
  after it. Case identifiers are on the scale \<open>1..N\<close>, and the loop passes the
  likelihood \<open>i + 1\<close> for its case but the sampler \<open>i\<close>: the sampler is asked about the
  case before. On the example, with the sampler \<open>pick_spec\<close> of the spec, the input is
  in temporal order; for the third case (index 2, date 7) the sampler is asked about
  case 2 (date 10) and answers case 3 (date 7), rightly for case 2; the proposal is
  accepted and the third case ends as its own ancestor.
\<close>

theorem alpha_asks_about_previous_case:
  "wf_param ex4_data ex4_param
   \<and> alpha ex4_param = [None, Some 1, Some 1, None]
   \<and> ancestor_ok (t_inf ex4_param) 1 (Some 1)
   \<and> ancestor_ok (t_inf ex4_param) 2 (Some 1)
   \<and> alpha_before ll_flat pick_spec ex4_data ex4_param 2 ex_rng
       = Inr \<lparr>new_alpha = [None, Some 4, Some 1, None], agen = ex_rng\<rparr>
   \<and> fst (pick_spec (t_inf ex4_param) 2 ex_rng) = Some 3
   \<and> ancestor_ok (t_inf ex4_param) (2 - 1) (Some 3)
   \<and> cpp_move_alpha ll_flat pick_spec ex4_data ex4_param ex_rng
       = Inr (ex4_param\<lparr>alpha := [None, Some 4, Some 3, None]\<rparr>, ex_rng)
   \<and> \<not> ancestor_ok (t_inf ex4_param) 2 (Some 3)"
  by (simp add: wf_param_def ancestor_ok_def alpha_defs pick_spec_def possible_ancestors_def
      ll_flat_def ex4_data_def ex4_param_def upt_4 ex_defs)








text \<open>
  Claim C6 (the ancestry move ignores the single-case log-likelihoods). Two likelihood
  functions that agree on every whole-population call give, with the same sampler and
  the same generator, the same result, whatever they return on the calls restricted to
  one case.
\<close>

theorem alpha_ignores_case_loglik:
  assumes "\<And>q. ll1 d q None = ll2 d q None"
  shows "cpp_move_alpha ll1 pick d p s = cpp_move_alpha ll2 pick d p s"
proof -
  have "alpha_case ll1 pick d p = alpha_case ll2 pick d p"
    by (intro ext) (simp add: alpha_case_def alpha_propose_whole [of ll1 d ll2] assms)
  then show ?thesis by (simp add: cpp_move_alpha_def)
qed

theorem alpha_ignores_case_loglik_witness:
  "(\<forall>q. ll_flat ex_data q None = ll_case ex_data q None)
   \<and> ll_flat ex_data ex_param (Some 2) \<noteq> ll_case ex_data ex_param (Some 2)
   \<and> cpp_move_alpha ll_flat pick_first ex_data ex_param ex_rng
       = cpp_move_alpha ll_case pick_first ex_data ex_param ex_rng"
proof -
  have a: "ll_flat ex_data q None = ll_case ex_data q None" for q
    by (simp add: ll_flat_def ll_case_def)
  have b: "ll_flat ex_data ex_param (Some 2) \<noteq> ll_case ex_data ex_param (Some 2)"
    by (simp add: ll_flat_def ll_case_def)
  from alpha_ignores_case_loglik [of ll_flat ex_data ll_case pick_first ex_param ex_rng] a b
  show ?thesis by blast
qed

text \<open>
  Claim C7 (ineligible cases). A case without ancestor, or with no case infected
  strictly earlier, keeps its entry of \<open>alpha\<close> through the ancestry move, for every
  likelihood, sampler and generator.
\<close>

theorem alpha_ineligible_untouched:
  assumes "wf_param d p" and "i < N d"
    and "alpha p ! i = None \<or> (\<forall>j<length (t_inf p). \<not> t_inf p ! j < t_inf p ! i)"
  shows "\<exists>p' s'. cpp_move_alpha ll pick d p s = Inr (p', s') \<and> alpha p' ! i = alpha p ! i"
proof -
  from assms(3) have "\<not> eligible p i"
    by (auto simp add: eligible_def n_earlier_zero)
  with assms(1,2) show ?thesis by (intro alpha_entry_kept) simp_all
qed

theorem alpha_ineligible_untouched_witness:
  "wf_param ex_data ex_param \<and> 0 < N ex_data \<and> alpha ex_param ! 0 = None
   \<and> (\<exists>p' s'. cpp_move_alpha ll_flat pick_first ex_data ex_param ex_rng = Inr (p', s')
         \<and> alpha p' ! 0 = alpha ex_param ! 0)"
proof -
  have n: "0 < N ex_data" by (simp add: ex_data_def)
  have a: "alpha ex_param ! 0 = None" by (simp add: ex_param_def)
  from alpha_ineligible_untouched [OF ex_wf n, of ll_flat pick_first ex_rng] a ex_wf n
  show ?thesis by simp
qed

text \<open>
  Claim C8 (nothing changes when every test rejects). For each of the three moves: if
  every acceptance test of the move rejects, the returned snapshot has the mutation
  rate, the infection dates and the ancestries of the input.
\<close>

theorem all_rejected_unchanged:
  "(rejected (mu_propose llg d p c s) \<longrightarrow>
      mu (fst (cpp_move_mu llg d p c s)) = mu p
      \<and> t_inf (fst (cpp_move_mu llg d p c s)) = t_inf p
      \<and> alpha (fst (cpp_move_mu llg d p c s)) = alpha p)
   \<and> (wf_param d p \<and> t_inf_always_rejected llt d p s \<longrightarrow>
      (\<exists>p' s'. cpp_move_t_inf llt d p s = Inr (p', s')
         \<and> mu p' = mu p \<and> t_inf p' = t_inf p \<and> alpha p' = alpha p))
   \<and> (wf_param d p \<and> alpha_always_rejected lla pick d p s \<longrightarrow>
      (\<exists>p' s'. cpp_move_alpha lla pick d p s = Inr (p', s')
         \<and> mu p' = mu p \<and> t_inf p' = t_inf p \<and> alpha p' = alpha p))"
proof (intro conjI impI)
  assume "wf_param d p \<and> t_inf_always_rejected llt d p s"
  then show "\<exists>p' s'. cpp_move_t_inf llt d p s = Inr (p', s')
         \<and> mu p' = mu p \<and> t_inf p' = t_inf p \<and> alpha p' = alpha p"
    using t_inf_sweep_rejected [of d p llt s] by auto
next
  assume "wf_param d p \<and> alpha_always_rejected lla pick d p s"
  then show "\<exists>p' s'. cpp_move_alpha lla pick d p s = Inr (p', s')
         \<and> mu p' = mu p \<and> t_inf p' = t_inf p \<and> alpha p' = alpha p"
    using alpha_sweep_rejected [of d p lla pick s] by auto
qed (simp_all add: mu_move_rejected)

theorem all_rejected_unchanged_witness:
  "rejected (mu_propose (ll_only ex_param) ex_data ex_param ex_config ex_rng)
   \<and> mu (fst (cpp_move_mu (ll_only ex_param) ex_data ex_param ex_config ex_rng)) = mu ex_param
   \<and> wf_param ex_data ex_param
   \<and> t_inf_always_rejected (ll_only ex_param) ex_data ex_param ex_rng
   \<and> (\<exists>p' s'. cpp_move_t_inf (ll_only ex_param) ex_data ex_param ex_rng = Inr (p', s')
         \<and> mu p' = mu ex_param \<and> t_inf p' = t_inf ex_param \<and> alpha p' = alpha ex_param)
   \<and> wf_param ex_data (ex_param\<lparr>alpha := [None, None, Some 2]\<rparr>)
   \<and> alpha_always_rejected (ll_only (ex_param\<lparr>alpha := [None, None, Some 2]\<rparr>))
        pick_first ex_data (ex_param\<lparr>alpha := [None, None, Some 2]\<rparr>) ex_rng
   \<and> (\<exists>p' s'. cpp_move_alpha (ll_only (ex_param\<lparr>alpha := [None, None, Some 2]\<rparr>))
          pick_first ex_data (ex_param\<lparr>alpha := [None, None, Some 2]\<rparr>) ex_rng = Inr (p', s')
         \<and> mu p' = mu ex_param \<and> t_inf p' = t_inf ex_param
         \<and> alpha p' = [None, None, Some 2])"
proof -
  let ?q = "ex_param\<lparr>alpha := [None, None, Some 2]\<rparr>"
  have m: "rejected (mu_propose (ll_only ex_param) ex_data ex_param ex_config ex_rng)"
    by (simp add: mu_propose_def rnorm_def ll_only_def ex_defs)
  have t: "t_inf_always_rejected (ll_only ex_param) ex_data ex_param ex_rng"
    by (simp add: t_inf_always_rejected_def all_less_3 t_inf_defs ll_only_def ex_defs)
  have w: "wf_param ex_data ?q"
    by (simp add: wf_param_def ex_data_def ex_param_def)
  have a: "alpha_always_rejected (ll_only ?q) pick_first ex_data ?q ex_rng"
    by (simp add: alpha_always_rejected_def eligible_def all_less_3 alpha_defs ll_only_def
        pick_first_def ex_defs)
  from all_rejected_unchanged [of "ll_only ex_param" ex_data ex_param ex_config ex_rng
      "ll_only ex_param" "ll_only ex_param" pick_first] m t ex_wf
  have 1: "mu (fst (cpp_move_mu (ll_only ex_param) ex_data ex_param ex_config ex_rng))
       = mu ex_param"
    and 2: "\<exists>p' s'. cpp_move_t_inf (ll_only ex_param) ex_data ex_param ex_rng = Inr (p', s')
         \<and> mu p' = mu ex_param \<and> t_inf p' = t_inf ex_param \<and> alpha p' = alpha ex_param"
    by blast+
  from all_rejected_unchanged [of "ll_only ?q" ex_data ?q ex_config ex_rng
      "ll_only ?q" "ll_only ?q" pick_first] w a
  have 3: "\<exists>p' s'. cpp_move_alpha (ll_only ?q) pick_first ex_data ?q ex_rng = Inr (p', s')
         \<and> mu p' = mu ex_param \<and> t_inf p' = t_inf ex_param \<and> alpha p' = [None, None, Some 2]"
    by simp
  from m 1 ex_wf t 2 w a 3 show ?thesis by (intro conjI)
qed

text \<open>
  Claim C9 (standard deviation zero). With \<open>sd_mu = 0\<close> the perturbation is 0 and the
  returned mutation rate is that of the input, for every snapshot, likelihood and
  generator.
\<close>

theorem mu_zero_sd_unchanged:
  "sd_mu c = Fin 0 \<Longrightarrow>
     fst (rnorm (Fin 0) (sd_mu c) s) = Fin 0 \<and> mu (fst (cpp_move_mu ll d p c s)) = mu p"
  by (simp add: cpp_move_mu_def mu_propose_def rnorm_zero_sd dbl_plus_zero Let_def
      split: prod.splits)

theorem mu_zero_sd_unchanged_witness:
  "sd_mu (ex_config\<lparr>sd_mu := Fin 0\<rparr>) = Fin 0
   \<and> mu (fst (cpp_move_mu ll_flat ex_data ex_param (ex_config\<lparr>sd_mu := Fin 0\<rparr>) ex_rng))
       = mu ex_param"
proof -
  have z: "sd_mu (ex_config\<lparr>sd_mu := Fin 0\<rparr>) = Fin 0" by simp
  from mu_zero_sd_unchanged [OF z, of ex_rng ll_flat ex_data ex_param] z
  show ?thesis by blast
qed

text \<open>
  Claim C10 (each move writes its own field only). The mutation-rate move returns the
  dates and ancestries of the input. Whenever the infection-date move returns, its
  result has the mutation rate and ancestries of the input, and whenever the ancestry
  move returns, its result has the mutation rate and dates of the input; both return
  on every snapshot with one entry per case.
\<close>

theorem moves_frame:
  "t_inf (fst (cpp_move_mu llg d p c s)) = t_inf p
   \<and> alpha (fst (cpp_move_mu llg d p c s)) = alpha p
   \<and> (\<forall>p' s'. cpp_move_t_inf llt d p s = Inr (p', s') \<longrightarrow> mu p' = mu p \<and> alpha p' = alpha p)
   \<and> (\<forall>p' s'. cpp_move_alpha lla pick d p s = Inr (p', s') \<longrightarrow>
         mu p' = mu p \<and> t_inf p' = t_inf p)
   \<and> (wf_param d p \<longrightarrow>
         (\<exists>p' s'. cpp_move_t_inf llt d p s = Inr (p', s'))
         \<and> (\<exists>p' s'. cpp_move_alpha lla pick d p s = Inr (p', s')))"
proof (intro conjI allI impI)
  fix p' s' assume "cpp_move_t_inf llt d p s = Inr (p', s')"
  then show "mu p' = mu p" "alpha p' = alpha p"
    by (auto simp add: cpp_move_t_inf_def t_inf_new_param_def split: sum.splits)
next
  fix p' s' assume "cpp_move_alpha lla pick d p s = Inr (p', s')"
  then show "mu p' = mu p" "t_inf p' = t_inf p"
    by (auto simp add: cpp_move_alpha_def split: sum.splits)
next
  assume "wf_param d p"
  then show "\<exists>p' s'. cpp_move_t_inf llt d p s = Inr (p', s')"
    "\<exists>p' s'. cpp_move_alpha lla pick d p s = Inr (p', s')"
    using t_inf_move_frame [of d p llt s] alpha_move_frame [of d p lla pick s] by blast+
qed (simp_all add: mu_move_frame)

theorem moves_frame_witness:
  "wf_param ex_data ex_param
   \<and> t_inf (fst (cpp_move_mu ll_flat ex_data ex_param ex_config ex_rng)) = t_inf ex_param
   \<and> alpha (fst (cpp_move_mu ll_flat ex_data ex_param ex_config ex_rng)) = alpha ex_param
   \<and> (\<exists>p' s'. cpp_move_t_inf ll_gap ex_data ex_param ex_rng = Inr (p', s')
         \<and> mu p' = mu ex_param \<and> alpha p' = alpha ex_param)
   \<and> (\<exists>p' s'. cpp_move_alpha ll_flat pick_first ex_data ex_param ex_rng = Inr (p', s')
         \<and> mu p' = mu ex_param \<and> t_inf p' = t_inf ex_param)"
proof -
  note r = moves_frame [of ll_flat ex_data ex_param ex_config ex_rng ll_gap ll_flat pick_first]
  from r ex_wf obtain p1 s1 p2 s2 where
    "cpp_move_t_inf ll_gap ex_data ex_param ex_rng = Inr (p1, s1)"
    "cpp_move_alpha ll_flat pick_first ex_data ex_param ex_rng = Inr (p2, s2)"
    by blast
  with r ex_wf show ?thesis by blast
qed

end
